theory Spec2Isabelle
  imports Main "HOL-Library.Word"
begin

section \<open>drgn command line front end (\<^verbatim>\<open>drgn/cli.py\<close>): data model\<close>

text \<open>
  The exceptions that \<^verbatim>\<open>drgn/cli.py\<close> raises itself or lets through from the
  Python library: \<^verbatim>\<open>KeyError\<close> from a dictionary lookup, \<^verbatim>\<open>IndexError\<close> from
  list indexing, \<^verbatim>\<open>ValueError\<close> from \<^verbatim>\<open>find_vmlinux\<close> (no argument) and from
  \<^verbatim>\<open>read_memory\<close> (the address in the message), \<^verbatim>\<open>OSError\<close> and
  \<^verbatim>\<open>OverflowError\<close> from \<^verbatim>\<open>os.pread\<close>, and \<^verbatim>\<open>SystemExit\<close> from
  \<^verbatim>\<open>sys.exit\<close> with its message. The last three are
  the failures of the debug information index and of the type index, whose modules are
  not among the source files; they carry the names the specification gives them.
\<close>

datatype error =
    KeyError string
  | IndexError
  | ValueError
  | ValueError_no_segment int
  | OSError
  | OverflowError
  | SystemExit string
  | NotFound
  | MissingAttribute
  | UnsupportedType

type_synonym byte = "8 word"

text \<open>
  A program header of the core file, as \<^verbatim>\<open>read_memory\<close> uses it: the fields
  \<^verbatim>\<open>p_offset\<close>, \<^verbatim>\<open>p_vaddr\<close> and \<^verbatim>\<open>p_memsz\<close>. In an ELF file the three are
  unsigned integers; Python holds them as unbounded integers, so the arithmetic on them
  below is done in \<^typ>\<open>int\<close> and never wraps.
\<close>

record phdr =
  p_offset :: nat
  p_vaddr :: nat
  p_memsz :: nat

section \<open>\<^verbatim>\<open>read_memory\<close>\<close>

text \<open>
  The test of line 102, \<^verbatim>\<open>phdr.p_vaddr <= address <= phdr.p_vaddr + phdr.p_memsz\<close>.
\<close>

definition phdr_matches :: "phdr \<Rightarrow> int \<Rightarrow> bool" where
  "phdr_matches ph address \<longleftrightarrow>
     int (p_vaddr ph) \<le> address \<and> address \<le> int (p_vaddr ph) + int (p_memsz ph)"

text \<open>
  The \<^verbatim>\<open>for ... else\<close> loop of lines 101 to 105: the program header the loop breaks
  at, or \<open>None\<close> when the loop runs to its end and the \<^verbatim>\<open>else\<close> branch raises.
\<close>

fun find_phdr :: "phdr list \<Rightarrow> int \<Rightarrow> phdr option" where
  "find_phdr [] address = None"
| "find_phdr (ph # phdrs) address =
     (if phdr_matches ph address then Some ph else find_phdr phdrs address)"

text \<open>
  \<^verbatim>\<open>os.pread(fd, size, offset)\<close> on a file whose content is the byte list
  \<open>core_file\<close>, on a platform whose \<^verbatim>\<open>ssize_t\<close> and \<^verbatim>\<open>off_t\<close> have 64 bits.
  The call converts its arguments first: a size or an offset outside the range of the
  C type is \<^verbatim>\<open>OverflowError\<close>. A negative size or offset within the range is
  \<^verbatim>\<open>OSError\<close> (\<^verbatim>\<open>EINVAL\<close>). Otherwise the result is at most \<open>size\<close> bytes from
  position \<open>offset\<close>, fewer at the end of the file. Exhaustion of memory for the
  buffer of \<open>size\<close> bytes and failures of the device are outside this model, so
  nothing below is concluded from the mere fact that the model returns bytes for a
  large size.
\<close>

definition os_pread :: "byte list \<Rightarrow> int \<Rightarrow> int \<Rightarrow> error + byte list" where
  "os_pread core_file sz offset =
     (if sz < - (2 ^ 63) \<or> 2 ^ 63 \<le> sz \<or> offset < - (2 ^ 63) \<or> 2 ^ 63 \<le> offset
      then Inl OverflowError
      else if sz < 0 \<or> offset < 0 then Inl OSError
      else Inr (take (nat sz) (drop (nat offset) core_file)))"

text \<open>
  \<^verbatim>\<open>read_memory(address, size)\<close>, lines 100 to 107, over the parsed program headers
  \<open>phdrs\<close> and the content of the core file.
\<close>

definition read_memory :: "phdr list \<Rightarrow> byte list \<Rightarrow> int \<Rightarrow> int \<Rightarrow> error + byte list" where
  "read_memory phdrs core_file address sz =
     (case find_phdr phdrs address of
        None \<Rightarrow> Inl (ValueError_no_segment address)
      | Some ph \<Rightarrow>
          os_pread core_file sz (int (p_offset ph) + address - int (p_vaddr ph)))"

text \<open>
  The half-open range of a segment, \<open>[p_vaddr, p_vaddr + p_memsz)\<close>: the addresses of
  the \<open>p_memsz\<close> bytes that the segment holds.
\<close>

definition in_segment :: "phdr \<Rightarrow> int \<Rightarrow> bool" where
  "in_segment ph address \<longleftrightarrow>
     int (p_vaddr ph) \<le> address \<and> address < int (p_vaddr ph) + int (p_memsz ph)"

section \<open>\<^verbatim>\<open>lookup_variable\<close>\<close>

text \<open>
  Modelled from the spec: the kinds of debug records. The enumeration \<^verbatim>\<open>DW_TAG\<close> of
  \<^verbatim>\<open>drgn.dwarf\<close> is not among the source files; the kinds are those the specification
  lists for a debug record, and those of the child records that the type descriptors
  are built from (members, enumerators, parameters). \<^verbatim>\<open>DW_TAG.variable\<close> of line 97
  is \<open>Variable\<close>.
\<close>

datatype kind =
    Variable | Subroutine | StructureType | UnionType | PointerType | BaseType | Typedef
  | ArrayType | EnumerationType | QualifiedType | SubroutineType
  | Member | Enumerator | Parameter

text \<open>
  Modelled from the spec: one line of the symbol listing that \<^verbatim>\<open>parse_symbol_file\<close>
  of \<^verbatim>\<open>drgn.util\<close> reads (not among the source files): an address, written in
  hexadecimal in the listing, a kind marker of one character, a name, and the name of
  the owning module when there is one. The decoding of the text of a line is not
  modelled.
\<close>

record symbol_line =
  sym_address :: int
  sym_kind :: char
  sym_name :: string
  sym_module :: "string option"

text \<open>The dictionary \<^verbatim>\<open>symbols\<close> of line 90: a name to the list of its addresses.\<close>

type_synonym symbols = "string \<rightharpoonup> int list"

text \<open>
  Modelled from the spec: \<^verbatim>\<open>parse_symbol_file\<close> of \<^verbatim>\<open>drgn.util\<close>, which is not
  among the source files. Parsing groups the entries by name and keeps the order in
  which they appear in the listing; a name that appears again gets one more address.
\<close>

definition add_symbol :: "symbols \<Rightarrow> symbol_line \<Rightarrow> symbols" where
  "add_symbol symbols l =
     symbols(sym_name l \<mapsto>
       (case symbols (sym_name l) of None \<Rightarrow> [] | Some addresses \<Rightarrow> addresses)
       @ [sym_address l])"

text \<open>
  Modelled from the spec: \<^verbatim>\<open>parse_symbol_file\<close> of \<^verbatim>\<open>drgn.util\<close> (not among the
  source files) over the lines of the listing, in their order.
\<close>

definition parse_symbol_file :: "symbol_line list \<Rightarrow> symbols" where
  "parse_symbol_file ls = foldl add_symbol Map.empty ls"

text \<open>
  Line 96, \<^verbatim>\<open>address = symbols[name][-1]\<close>: \<^verbatim>\<open>KeyError\<close> when the dictionary has no
  such name, \<^verbatim>\<open>IndexError\<close> when its list is empty, else the last address of the list.
\<close>

definition lookup_address :: "symbols \<Rightarrow> string \<Rightarrow> error + int" where
  "lookup_address symbols name =
     (case symbols name of
        None \<Rightarrow> Inl (KeyError name)
      | Some addresses \<Rightarrow> if addresses = [] then Inl IndexError else Inr (last addresses))"

text \<open>
  \<^verbatim>\<open>lookup_variable(name)\<close>, lines 95 to 98. The three calls into modules that are not
  among the source files are parameters: \<open>dwarf_index_find\<close> is \<^verbatim>\<open>dwarf_index.find\<close>,
  \<open>die_type\<close> is the method \<^verbatim>\<open>type()\<close> of the record found, \<open>find_dwarf_type\<close> is
  \<^verbatim>\<open>type_index.find_dwarf_type\<close>; each returns its value or the exception it raises.
  The statements run in the order of the source, and the first exception ends the call.
\<close>

definition lookup_variable ::
  "symbols \<Rightarrow> (string \<Rightarrow> kind \<Rightarrow> error + 'die) \<Rightarrow> ('die \<Rightarrow> error + 'die) \<Rightarrow>
   ('die \<Rightarrow> error + 'ty) \<Rightarrow> string \<Rightarrow> error + int \<times> 'ty" where
  "lookup_variable symbols dwarf_index_find die_type find_dwarf_type name =
     (case lookup_address symbols name of
        Inl e \<Rightarrow> Inl e
      | Inr address \<Rightarrow>
          (case dwarf_index_find name Variable of
             Inl e \<Rightarrow> Inl e
           | Inr die \<Rightarrow>
               (case die_type die of
                  Inl e \<Rightarrow> Inl e
                | Inr dwarf_type \<Rightarrow>
                    (case find_dwarf_type dwarf_type of
                       Inl e \<Rightarrow> Inl e
                     | Inr ty \<Rightarrow> Inr (address, ty)))))"

section \<open>\<^verbatim>\<open>main\<close>: the paths handed to the debug information index\<close>

text \<open>
  The loop of \<^verbatim>\<open>find_vmlinux\<close>, lines 31 to 35, over \<^verbatim>\<open>os.path.exists\<close> as a
  parameter: the first path that exists, or \<^verbatim>\<open>ValueError\<close>.
\<close>

fun first_existing :: "(string \<Rightarrow> bool) \<Rightarrow> string list \<Rightarrow> error + string" where
  "first_existing path_exists [] = Inl ValueError"
| "first_existing path_exists (path # paths) =
     (if path_exists path then Inr path else first_existing path_exists paths)"

text \<open>\<^verbatim>\<open>find_vmlinux(release)\<close>, lines 25 to 35.\<close>

definition find_vmlinux :: "(string \<Rightarrow> bool) \<Rightarrow> string \<Rightarrow> error + string" where
  "find_vmlinux path_exists release =
     first_existing path_exists
       [''/usr/lib/debug/lib/modules/'' @ release @ ''/vmlinux'',
        ''/boot/vmlinux-'' @ release,
        ''/lib/modules/'' @ release @ ''/build/vmlinux'']"

text \<open>
  The loop of \<^verbatim>\<open>find_modules\<close>, lines 43 to 48, over \<^verbatim>\<open>glob.glob\<close> as a parameter:
  the matches of the first pattern that has any, or the empty list.
\<close>

fun first_glob :: "(string \<Rightarrow> string list) \<Rightarrow> string list \<Rightarrow> string list" where
  "first_glob glob [] = []"
| "first_glob glob (pattern # patterns) =
     (let paths = glob pattern in if paths \<noteq> [] then paths else first_glob glob patterns)"

text \<open>\<^verbatim>\<open>find_modules(release)\<close>, lines 38 to 48.\<close>

definition find_modules :: "(string \<Rightarrow> string list) \<Rightarrow> string \<Rightarrow> string list" where
  "find_modules glob release =
     first_glob glob
       [''/usr/lib/debug/lib/modules/'' @ release @ ''/kernel/**/*.ko.debug'',
        ''/lib/modules/'' @ release @ ''/kernel/**/*.ko'']"

text \<open>The parsed command line, as \<^verbatim>\<open>main\<close> reads it (lines 56 to 67).\<close>

record args =
  kernel :: bool
  executable :: "string option"
  script :: "string list"

text \<open>
  \<^verbatim>\<open>main\<close>, lines 69 to 86, up to the call \<^verbatim>\<open>DwarfIndex(paths)\<close>: the list
  \<^verbatim>\<open>paths\<close> of that call, or the exit of lines 70 and 78. \<open>release\<close> is the value of
  \<^verbatim>\<open>platform.release()\<close>. The warning printed at line 82 changes no value and is
  left out.
\<close>

definition main_paths ::
  "(string \<Rightarrow> bool) \<Rightarrow> (string \<Rightarrow> string list) \<Rightarrow> string \<Rightarrow> args \<Rightarrow> error + string list" where
  "main_paths path_exists glob release args =
     (if \<not> kernel args then Inl (SystemExit ''Only --kernel mode is currently implemented'')
      else
        (case (case executable args of
                 Some path \<Rightarrow> Inr path
               | None \<Rightarrow>
                   (case find_vmlinux path_exists release of
                      Inr path \<Rightarrow> Inr path
                    | Inl e \<Rightarrow>
                        Inl (SystemExit ''Could not find vmlinux file; install the proper debuginfo package or use --executable''))) of
           Inl e \<Rightarrow> Inl e
         | Inr executable_path \<Rightarrow> Inr (find_modules glob release @ [executable_path])))"

text \<open>
  Modelled from the spec: \<^verbatim>\<open>DwarfIndex.find\<close> of \<^verbatim>\<open>drgn.dwarfindex\<close>, which is not
  among the source files. The binaries are scanned in the order the caller gave their
  paths, and the record of the first binary that has one for the pair of name and kind
  is returned; \<^verbatim>\<open>NotFound\<close> when no binary has one. \<open>binaries\<close> gives for a path the
  index of the binary opened there, which is empty for a binary that could not be read
  or has no debug information.
\<close>

fun DwarfIndex_find ::
  "(string \<Rightarrow> (string \<times> kind \<rightharpoonup> 'r)) \<Rightarrow> string list \<Rightarrow> string \<Rightarrow> kind \<Rightarrow> error + 'r" where
  "DwarfIndex_find binaries [] name k = Inl NotFound"
| "DwarfIndex_find binaries (path # paths) name k =
     (case binaries path (name, k) of
        Some r \<Rightarrow> Inr r
      | None \<Rightarrow> DwarfIndex_find binaries paths name k)"

section \<open>The type resolver\<close>

text \<open>
  Modelled from the spec: the identity of a debug record, the identifier of its compile
  unit and its byte offset. The type index (\<^verbatim>\<open>drgn.typeindex\<close>, called at line 98)
  and the debug records (\<^verbatim>\<open>drgn.dwarf\<close>) are not among the source files.
\<close>

type_synonym ident = "nat \<times> nat"

text \<open>
  Modelled from the spec: the attributes of a debug record that the type descriptors
  need (size, encoding, type reference, member offset, array length, enumerator value,
  qualifier), and the values of an attribute: a constant, a string or a reference to
  another debug record, by its identity.
\<close>

datatype attr_name =
    AT_byte_size | AT_encoding | AT_type | AT_member_offset | AT_length | AT_value
  | AT_qualifier

datatype attr_value = Const int | Str string | Ref ident

text \<open>
  Modelled from the spec: a debug record, with its kind, its optional name, its
  identity, its attribute map and the ordered list of its child records.
\<close>

datatype debug_record =
  DebugRecord (rec_kind: kind) (rec_name: "string option") (rec_identity: ident)
    (rec_attrs: "(attr_name \<times> attr_value) list") (rec_children: "debug_record list")

text \<open>
  Modelled from the spec: a reference from one type descriptor to another is the cache
  key of the other, which is the identity of its debug record; \<open>None\<close> refers to
  \<open>Void\<close>, which has no debug record.
\<close>

type_synonym type_ref = "ident option"

text \<open>
  Modelled from the spec: the variants of a type descriptor. A member is its name, its
  byte offset and its type; an enumerator is its name and its value. Names are the
  optional names of the debug records.
\<close>

datatype type_descriptor =
    Void
  | Base "string option" int int
  | Pointer type_ref
  | Array type_ref int
  | Struct "string option" int "(string option \<times> int \<times> type_ref) list"
  | Union "string option" int "(string option \<times> int \<times> type_ref) list"
  | Enum "string option" type_ref "(string option \<times> int) list"
  | TypedefOf "string option" type_ref
  | Qualified string type_ref
  | Function type_ref "type_ref list"

text \<open>
  Modelled from the spec: an entry of the resolver's cache, the placeholder of a record
  whose resolution is in progress or the descriptor once it is filled in; and the
  cache, the arena of descriptors addressed by the identity of their records.
\<close>

datatype entry = InProgress | Resolved type_descriptor

type_synonym arena = "ident \<rightharpoonup> entry"

text \<open>
  Modelled from the spec: reading a required attribute of a record;
  \<^verbatim>\<open>MissingAttribute\<close> when it is absent (or is not of the kind of value asked for).
\<close>

definition attr_const :: "debug_record \<Rightarrow> attr_name \<Rightarrow> error + int" where
  "attr_const r a =
     (case map_of (rec_attrs r) a of Some (Const c) \<Rightarrow> Inr c | _ \<Rightarrow> Inl MissingAttribute)"

text \<open>Modelled from the spec: a required attribute whose value is a string.\<close>

definition attr_str :: "debug_record \<Rightarrow> attr_name \<Rightarrow> error + string" where
  "attr_str r a =
     (case map_of (rec_attrs r) a of Some (Str s) \<Rightarrow> Inr s | _ \<Rightarrow> Inl MissingAttribute)"

text \<open>Modelled from the spec: the type reference of a record that must have one.\<close>

definition attr_ref :: "debug_record \<Rightarrow> error + type_ref" where
  "attr_ref r =
     (case map_of (rec_attrs r) AT_type of
        Some (Ref i) \<Rightarrow> Inr (Some i)
      | _ \<Rightarrow> Inl MissingAttribute)"

text \<open>
  Modelled from the spec: the type reference of a record of a kind that may be of the
  type \<open>Void\<close> (a pointer, a type definition, a qualified type, the return type of a
  function): no reference means \<open>Void\<close>.
\<close>

definition attr_ref_or_void :: "debug_record \<Rightarrow> type_ref" where
  "attr_ref_or_void r =
     (case map_of (rec_attrs r) AT_type of Some (Ref i) \<Rightarrow> Some i | _ \<Rightarrow> None)"

text \<open>Sequencing of two steps that may fail: the first failure is the result.\<close>

definition bind :: "error + 'a \<Rightarrow> ('a \<Rightarrow> error + 'b) \<Rightarrow> error + 'b" where
  "bind x f = (case x of Inl e \<Rightarrow> Inl e | Inr v \<Rightarrow> f v)"

fun collect :: "('a \<Rightarrow> error + 'b) \<Rightarrow> 'a list \<Rightarrow> error + 'b list" where
  "collect f [] = Inr []"
| "collect f (x # xs) = bind (f x) (\<lambda>y. bind (collect f xs) (\<lambda>ys. Inr (y # ys)))"

text \<open>
  Modelled from the spec: a member of a structure or union, from its child record: the
  name, the byte offset and the type, the last two taken as the record declares them.
\<close>

definition member_of :: "debug_record \<Rightarrow> error + string option \<times> int \<times> type_ref" where
  "member_of c =
     bind (attr_const c AT_member_offset) (\<lambda>off.
     bind (attr_ref c) (\<lambda>t. Inr (rec_name c, off, t)))"

text \<open>Modelled from the spec: an enumerator, from its child record.\<close>

definition enumerator_of :: "debug_record \<Rightarrow> error + string option \<times> int" where
  "enumerator_of c = bind (attr_const c AT_value) (\<lambda>v. Inr (rec_name c, v))"

text \<open>Modelled from the spec: the child records of one kind, in their order.\<close>

definition children_of :: "kind \<Rightarrow> debug_record \<Rightarrow> debug_record list" where
  "children_of k r = filter (\<lambda>c. rec_kind c = k) (rec_children r)"

text \<open>
  Modelled from the spec: the dispatch of the resolver on the kind of a record, giving
  the descriptor of the record with its references as cache keys:
  \<^verbatim>\<open>UnsupportedType\<close> for a kind with no mapping to a descriptor,
  \<^verbatim>\<open>MissingAttribute\<close> when a required attribute is absent.
\<close>

definition describe :: "debug_record \<Rightarrow> error + type_descriptor" where
  "describe r =
     (case rec_kind r of
        BaseType \<Rightarrow>
          bind (attr_const r AT_byte_size) (\<lambda>sz.
          bind (attr_const r AT_encoding) (\<lambda>enc. Inr (Base (rec_name r) sz enc)))
      | PointerType \<Rightarrow> Inr (Pointer (attr_ref_or_void r))
      | ArrayType \<Rightarrow>
          bind (attr_ref r) (\<lambda>t.
          bind (attr_const r AT_length) (\<lambda>n. Inr (Array t n)))
      | StructureType \<Rightarrow>
          bind (attr_const r AT_byte_size) (\<lambda>sz.
          bind (collect member_of (children_of Member r)) (\<lambda>ms.
            Inr (Struct (rec_name r) sz ms)))
      | UnionType \<Rightarrow>
          bind (attr_const r AT_byte_size) (\<lambda>sz.
          bind (collect member_of (children_of Member r)) (\<lambda>ms.
            Inr (Union (rec_name r) sz ms)))
      | EnumerationType \<Rightarrow>
          bind (attr_ref r) (\<lambda>t.
          bind (collect enumerator_of (children_of Enumerator r)) (\<lambda>es.
            Inr (Enum (rec_name r) t es)))
      | Typedef \<Rightarrow> Inr (TypedefOf (rec_name r) (attr_ref_or_void r))
      | QualifiedType \<Rightarrow>
          bind (attr_str r AT_qualifier) (\<lambda>q. Inr (Qualified q (attr_ref_or_void r)))
      | SubroutineType \<Rightarrow>
          bind (collect attr_ref (children_of Parameter r)) (\<lambda>ps.
            Inr (Function (attr_ref_or_void r) ps))
      | _ \<Rightarrow> Inl UnsupportedType)"

text \<open>The cache keys among a list of references, in order (\<open>Void\<close> has none).\<close>

definition keys_of :: "type_ref list \<Rightarrow> ident list" where
  "keys_of ts = concat (map (\<lambda>t. case t of None \<Rightarrow> [] | Some i \<Rightarrow> [i]) ts)"

text \<open>
  Modelled from the spec: the type records that a descriptor refers to and that the
  resolver resolves recursively: the pointee, the element type, the member types, the
  underlying type, the return and parameter types.
\<close>

fun refs_of :: "type_descriptor \<Rightarrow> ident list" where
  "refs_of Void = []"
| "refs_of (Base n sz enc) = []"
| "refs_of (Pointer t) = keys_of [t]"
| "refs_of (Array t n) = keys_of [t]"
| "refs_of (Struct n sz ms) = keys_of (map (\<lambda>(n, off, t). t) ms)"
| "refs_of (Union n sz ms) = keys_of (map (\<lambda>(n, off, t). t) ms)"
| "refs_of (Enum n t es) = keys_of [t]"
| "refs_of (TypedefOf n t) = keys_of [t]"
| "refs_of (Qualified q t) = keys_of [t]"
| "refs_of (Function t ps) = keys_of (t # ps)"

text \<open>
  Modelled from the spec: resolving a list of referenced records one after the other,
  each with the cache the one before left; the first failure ends it. \<open>f\<close> is the
  resolver for one record; \<open>None\<close> is a resolution that did not return.
\<close>

fun resolve_all ::
  "(arena \<Rightarrow> ident \<Rightarrow> (error + ident \<times> arena) option) \<Rightarrow> arena \<Rightarrow> ident list
   \<Rightarrow> (error + arena) option" where
  "resolve_all f arena [] = Some (Inr arena)"
| "resolve_all f arena (i # is) =
     (case f arena i of
        None \<Rightarrow> None
      | Some (Inl e) \<Rightarrow> Some (Inl e)
      | Some (Inr (k, arena')) \<Rightarrow> resolve_all f arena' is)"

text \<open>
  Modelled from the spec: \<^verbatim>\<open>resolve\<close> of the type resolver (the
  \<^verbatim>\<open>find_dwarf_type\<close> of line 98, whose module is not among the source files), for the
  record of identity \<open>i\<close> among \<open>records\<close>, with the cache \<open>arena\<close>. A record that has
  an entry in the cache, filled or in progress, is answered from the cache. Otherwise
  the resolver dispatches on the kind, registers a placeholder under the identity of the
  record, resolves the referenced records, and fills the placeholder in. The result is
  the cache key of the descriptor with the new cache, or the failure. What the cache
  holds after a failure is not described by the specification and is not part of the
  result. The first argument bounds the depth of the recursion: \<open>None\<close> is a resolution
  that has not returned within the bound.
\<close>

primrec resolve ::
  "nat \<Rightarrow> (ident \<times> debug_record) list \<Rightarrow> arena \<Rightarrow> ident \<Rightarrow> (error + ident \<times> arena) option" where
  "resolve 0 records arena i = None"
| "resolve (Suc fuel) records arena i =
     (case arena i of
        Some cached \<Rightarrow> Some (Inr (i, arena))
      | None \<Rightarrow>
          (case map_of records i of
             None \<Rightarrow> Some (Inl MissingAttribute)
           | Some r \<Rightarrow>
               (case describe r of
                  Inl e \<Rightarrow> Some (Inl e)
                | Inr d \<Rightarrow>
                    (case resolve_all (resolve fuel records) (arena(i \<mapsto> InProgress))
                            (refs_of d) of
                       None \<Rightarrow> None
                     | Some (Inl e) \<Rightarrow> Some (Inl e)
                     | Some (Inr arena') \<Rightarrow> Some (Inr (i, arena'(i \<mapsto> Resolved d)))))))"

text \<open>
  One cache comes after another in a resolution: every entry of the first is kept as it
  is, and every placeholder of the second was a placeholder of the first already.
\<close>

definition extends :: "('k \<rightharpoonup> entry) \<Rightarrow> ('k \<rightharpoonup> entry) \<Rightarrow> bool" where
  "extends a a' \<longleftrightarrow>
     (\<forall>k e. a k = Some e \<longrightarrow> a' k = Some e)
     \<and> (\<forall>k. a' k = Some InProgress \<longrightarrow> a k = Some InProgress)"

text \<open>
  Every filled entry of the cache is the descriptor of the record of its key, and the
  keys it refers to have entries.
\<close>

definition well_formed :: "(ident \<times> debug_record) list \<Rightarrow> arena \<Rightarrow> bool" where
  "well_formed records a \<longleftrightarrow>
     (\<forall>k d. a k = Some (Resolved d) \<longrightarrow>
        (\<exists>r. map_of records k = Some r \<and> describe r = Inr d) \<and> set (refs_of d) \<subseteq> dom a)"

text \<open>
  A cache between two resolutions: well formed, and with no placeholder left.
\<close>

definition complete :: "(ident \<times> debug_record) list \<Rightarrow> arena \<Rightarrow> bool" where
  "complete records a \<longleftrightarrow>
     well_formed records a \<and> (\<forall>k. a k \<noteq> Some InProgress)"

text \<open>
  Following a chain of references in the resolved graph, from the descriptor under the
  key \<open>k\<close>: each number of the path picks one of the references of the descriptor
  reached, in the order of \<open>refs_of\<close>. The result is the key reached.
\<close>

fun follow :: "arena \<Rightarrow> ident \<Rightarrow> nat list \<Rightarrow> ident option" where
  "follow a k [] = Some k"
| "follow a k (n # ns) =
     (case a k of
        Some (Resolved d) \<Rightarrow>
          (if n < length (refs_of d) then follow a (refs_of d ! n) ns else None)
      | _ \<Rightarrow> None)"

text \<open>The same chain of references in the debug records themselves.\<close>

fun follow_records :: "(ident \<times> debug_record) list \<Rightarrow> ident \<Rightarrow> nat list \<Rightarrow> ident option" where
  "follow_records records k [] = Some k"
| "follow_records records k (n # ns) =
     (case map_of records k of
        Some r \<Rightarrow>
          (case describe r of
             Inr d \<Rightarrow>
               (if n < length (refs_of d) then follow_records records (refs_of d ! n) ns
                else None)
           | Inl e \<Rightarrow> None)
      | None \<Rightarrow> None)"

text \<open>
  Two sets of debug records with cycles. The first is a list node,
  \<^verbatim>\<open>struct node { int value; struct node *next; }\<close>; the second is a pair of
  structures that refer to each other, \<^verbatim>\<open>struct a { struct b *b; }\<close> and
  \<^verbatim>\<open>struct b { struct a *a; }\<close>.
\<close>

definition node_records :: "(ident \<times> debug_record) list" where
  "node_records =
    [((0, 0x10), DebugRecord StructureType (Some ''node'') (0, 0x10) [(AT_byte_size, Const 16)]
        [DebugRecord Member (Some ''value'') (0, 0x18)
           [(AT_member_offset, Const 0), (AT_type, Ref (0, 0x40))] [],
         DebugRecord Member (Some ''next'') (0, 0x20)
           [(AT_member_offset, Const 8), (AT_type, Ref (0, 0x30))] []]),
     ((0, 0x30), DebugRecord PointerType None (0, 0x30)
        [(AT_byte_size, Const 8), (AT_type, Ref (0, 0x10))] []),
     ((0, 0x40), DebugRecord BaseType (Some ''int'') (0, 0x40)
        [(AT_byte_size, Const 4), (AT_encoding, Const 5)] [])]"

definition pair_records :: "(ident \<times> debug_record) list" where
  "pair_records =
    [((1, 0x10), DebugRecord StructureType (Some ''a'') (1, 0x10) [(AT_byte_size, Const 8)]
        [DebugRecord Member (Some ''b'') (1, 0x18)
           [(AT_member_offset, Const 0), (AT_type, Ref (1, 0x20))] []]),
     ((1, 0x20), DebugRecord PointerType None (1, 0x20)
        [(AT_byte_size, Const 8), (AT_type, Ref (1, 0x30))] []),
     ((1, 0x30), DebugRecord StructureType (Some ''b'') (1, 0x30) [(AT_byte_size, Const 8)]
        [DebugRecord Member (Some ''a'') (1, 0x38)
           [(AT_member_offset, Const 0), (AT_type, Ref (1, 0x40))] []]),
     ((1, 0x40), DebugRecord PointerType None (1, 0x40)
        [(AT_byte_size, Const 8), (AT_type, Ref (1, 0x10))] [])]"

section \<open>Address translation: lemmas\<close>


lemma find_phdr_None_iff:
  "find_phdr phdrs address = None \<longleftrightarrow> (\<forall>ph \<in> set phdrs. \<not> phdr_matches ph address)"
  by (induction phdrs) auto

lemma find_phdr_first:
  "find_phdr (pre @ ph # post) address = Some ph"
  if "\<forall>q \<in> set pre. \<not> phdr_matches q address" and "phdr_matches ph address"
  using that by (induction pre) auto

lemma in_segment_matches: "in_segment ph address \<Longrightarrow> phdr_matches ph address"
  by (simp add: in_segment_def phdr_matches_def)

lemma os_pread_Inr:
  "os_pread core_file sz offset = Inr bs \<Longrightarrow>
   bs = take (nat sz) (drop (nat offset) core_file)"
  by (simp add: os_pread_def split: if_splits)



section \<open>Address translation: properties\<close>

text \<open>
  C1 (the scan is in table order and stops at the first match, but the range it tests is
  closed, not half-open). For the segment table with the one segment \<open>[0x1000, 0x2000)\<close>
  the loop of \<^verbatim>\<open>read_memory\<close> breaks at that segment for the address \<open>0x2000\<close>, which
  is the segment's start plus its length and so lies outside its half-open range.
\<close>

theorem find_phdr_matches_end_address:
  "find_phdr [\<lparr>p_offset = 0, p_vaddr = 0x1000, p_memsz = 0x1000\<rparr>] 0x2000
     = Some \<lparr>p_offset = 0, p_vaddr = 0x1000, p_memsz = 0x1000\<rparr>
   \<and> \<not> in_segment \<lparr>p_offset = 0, p_vaddr = 0x1000, p_memsz = 0x1000\<rparr> 0x2000"
  by (simp add: phdr_matches_def in_segment_def)

text \<open>
  C3 (the error is raised exactly when no segment contains the address). With the one
  segment \<open>[0x1000, 0x2000)\<close> at file offset 0, no segment contains the address
  \<open>0x2000\<close>, and yet \<^verbatim>\<open>read_memory(0x2000, 1)\<close> raises nothing: whatever the file
  holds, it returns the byte at file position \<open>0x1000\<close> (or no byte, when the file ends
  before).
\<close>

theorem read_memory_end_address_not_an_error:
  "\<not> in_segment \<lparr>p_offset = 0, p_vaddr = 0x1000, p_memsz = 0x1000\<rparr> 0x2000
   \<and> (\<forall>core_file. read_memory [\<lparr>p_offset = 0, p_vaddr = 0x1000, p_memsz = 0x1000\<rparr>] core_file 0x2000 1
         = Inr (take 1 (drop 0x1000 core_file)))"
  by (simp add: read_memory_def phdr_matches_def in_segment_def os_pread_def)

text \<open>
  C4 (the bytes come from the file position of the segment that contains the address).
  Two adjacent segments, \<open>[0x10, 0x20)\<close> at file offset \<open>0\<close> and \<open>[0x20, 0x30)\<close> at file
  offset \<open>0x30\<close>, over a file of 16 bytes \<open>0\<close>, 32 bytes \<open>1\<close> and 16 bytes \<open>2\<close>. The
  address \<open>0x20\<close> is contained in the second segment only, whose file position for it
  is \<open>0x30\<close>, where the file holds \<open>2\<close>; \<^verbatim>\<open>read_memory(0x20, 1)\<close> returns the byte at
  \<open>0x10\<close>, which is \<open>1\<close>, because the loop stops at the first segment.
\<close>

theorem read_memory_adjacent_segments_wrong_position:
  "\<not> in_segment \<lparr>p_offset = 0, p_vaddr = 0x10, p_memsz = 0x10\<rparr> 0x20
   \<and> in_segment \<lparr>p_offset = 0x30, p_vaddr = 0x20, p_memsz = 0x10\<rparr> 0x20
   \<and> os_pread (replicate 16 0 @ replicate 32 1 @ replicate 16 2) 1 (0x30 + (0x20 - 0x20)) = Inr [2]
   \<and> read_memory
        [\<lparr>p_offset = 0, p_vaddr = 0x10, p_memsz = 0x10\<rparr>,
         \<lparr>p_offset = 0x30, p_vaddr = 0x20, p_memsz = 0x10\<rparr>]
        (replicate 16 0 @ replicate 32 1 @ replicate 16 2) 0x20 1 = Inr [1]"
  by (simp add: read_memory_def phdr_matches_def in_segment_def os_pread_def)




text \<open>
  C9 (the upper bound of the containment test is inclusive). For a segment of the table
  and the address equal to its start plus its length, when the test of the loop fails
  for every earlier segment: the address is outside the segment's half-open range, the
  loop stops at that segment, and \<^verbatim>\<open>read_memory\<close> does the positioned read at the
  segment's file offset plus its length instead of raising the error of the
  \<^verbatim>\<open>else\<close> branch.
\<close>

theorem read_memory_upper_bound_inclusive:
  assumes "\<forall>q \<in> set pre. \<not> phdr_matches q (int (p_vaddr ph) + int (p_memsz ph))"
  shows "\<not> in_segment ph (int (p_vaddr ph) + int (p_memsz ph))
       \<and> find_phdr (pre @ ph # post) (int (p_vaddr ph) + int (p_memsz ph)) = Some ph
       \<and> read_memory (pre @ ph # post) core_file (int (p_vaddr ph) + int (p_memsz ph)) sz
           = os_pread core_file sz (int (p_offset ph) + int (p_memsz ph))
       \<and> read_memory (pre @ ph # post) core_file (int (p_vaddr ph) + int (p_memsz ph)) sz
           \<noteq> Inl (ValueError_no_segment (int (p_vaddr ph) + int (p_memsz ph)))"
proof -
  have m: "phdr_matches ph (int (p_vaddr ph) + int (p_memsz ph))"
    by (simp add: phdr_matches_def)
  have f: "find_phdr (pre @ ph # post) (int (p_vaddr ph) + int (p_memsz ph)) = Some ph"
    using assms m by (rule find_phdr_first)
  have r: "read_memory (pre @ ph # post) core_file (int (p_vaddr ph) + int (p_memsz ph)) sz
           = os_pread core_file sz (int (p_offset ph) + int (p_memsz ph))"
    by (simp add: read_memory_def f)
  have "os_pread core_file sz (int (p_offset ph) + int (p_memsz ph))
          \<noteq> Inl (ValueError_no_segment (int (p_vaddr ph) + int (p_memsz ph)))"
    by (simp add: os_pread_def)
  with f r show ?thesis by (simp add: in_segment_def)
qed

text \<open>
  A table of two segments, \<open>[0x100, 0x200)\<close> and \<open>[0x1000, 0x2000)\<close>, the second at file
  offset 0: the byte returned for the address \<open>0x2000\<close> is the one at file position
  \<open>0x1000\<close>.
\<close>

theorem read_memory_upper_bound_inclusive_witness:
  "\<not> phdr_matches \<lparr>p_offset = 0x3000, p_vaddr = 0x100, p_memsz = 0x100\<rparr> 0x2000
   \<and> find_phdr [\<lparr>p_offset = 0x3000, p_vaddr = 0x100, p_memsz = 0x100\<rparr>,
                \<lparr>p_offset = 0, p_vaddr = 0x1000, p_memsz = 0x1000\<rparr>] 0x2000
       = Some \<lparr>p_offset = 0, p_vaddr = 0x1000, p_memsz = 0x1000\<rparr>
   \<and> read_memory [\<lparr>p_offset = 0x3000, p_vaddr = 0x100, p_memsz = 0x100\<rparr>,
                  \<lparr>p_offset = 0, p_vaddr = 0x1000, p_memsz = 0x1000\<rparr>]
        (replicate 0x1000 0 @ [0xAB, 0xCD]) 0x2000 1 = Inr [0xAB]"
  using read_memory_upper_bound_inclusive
    [of "[\<lparr>p_offset = 0x3000, p_vaddr = 0x100, p_memsz = 0x100\<rparr>]"
        "\<lparr>p_offset = 0, p_vaddr = 0x1000, p_memsz = 0x1000\<rparr>" "[]"
        "replicate 0x1000 0 @ [0xAB, 0xCD]" 1]
  by (simp add: phdr_matches_def os_pread_def)

text \<open>
  What \<^verbatim>\<open>read_memory\<close> does for the segment its loop stops at: the positioned read
  of \<open>size\<close> bytes at the segment's file offset plus the distance of the address from
  the segment's start; the bytes it returns, when it returns any, are the bytes of the
  file from that position on.
\<close>

theorem read_memory_translated_read:
  assumes "find_phdr phdrs address = Some ph"
  shows "read_memory phdrs core_file address sz
           = os_pread core_file sz (int (p_offset ph) + address - int (p_vaddr ph))
       \<and> (\<forall>bs. read_memory phdrs core_file address sz = Inr bs \<longrightarrow>
            bs = take (nat sz)
                   (drop (nat (int (p_offset ph) + address - int (p_vaddr ph))) core_file))"
proof -
  have r: "read_memory phdrs core_file address sz
           = os_pread core_file sz (int (p_offset ph) + address - int (p_vaddr ph))"
    using assms by (simp add: read_memory_def)
  have "bs = take (nat sz)
                   (drop (nat (int (p_offset ph) + address - int (p_vaddr ph))) core_file)"
    if "read_memory phdrs core_file address sz = Inr bs" for bs
  proof -
    from that
    have "os_pread core_file sz (int (p_offset ph) + address - int (p_vaddr ph)) = Inr bs"
      unfolding r .
    then show ?thesis by (rule os_pread_Inr)
  qed
  then have "\<forall>bs. read_memory phdrs core_file address sz = Inr bs \<longrightarrow>
            bs = take (nat sz)
                   (drop (nat (int (p_offset ph) + address - int (p_vaddr ph))) core_file)"
    by blast
  with r show ?thesis by (rule conjI)
qed

text \<open>
  The image of one segment \<open>[0x1000, 0x2000)\<close> at file offset 0:
  \<^verbatim>\<open>read_memory(0x1000, 16)\<close> is the first 16 bytes of the file.
\<close>

theorem read_memory_translated_read_witness:
  "find_phdr [\<lparr>p_offset = 0, p_vaddr = 0x1000, p_memsz = 0x1000\<rparr>] 0x1000
     = Some \<lparr>p_offset = 0, p_vaddr = 0x1000, p_memsz = 0x1000\<rparr>
   \<and> (\<forall>core_file.
         read_memory [\<lparr>p_offset = 0, p_vaddr = 0x1000, p_memsz = 0x1000\<rparr>] core_file 0x1000 16
           = Inr (take 16 core_file))"
proof -
  have f: "find_phdr [\<lparr>p_offset = 0, p_vaddr = 0x1000, p_memsz = 0x1000\<rparr>] 0x1000
     = Some \<lparr>p_offset = 0, p_vaddr = 0x1000, p_memsz = 0x1000\<rparr>"
    by (simp add: phdr_matches_def)
  have "read_memory [\<lparr>p_offset = 0, p_vaddr = 0x1000, p_memsz = 0x1000\<rparr>] core_file 0x1000 16
           = Inr (take 16 core_file)" for core_file
  proof -
    have "read_memory [\<lparr>p_offset = 0, p_vaddr = 0x1000, p_memsz = 0x1000\<rparr>] core_file 0x1000 16
           = os_pread core_file 16
               (int (p_offset \<lparr>p_offset = 0, p_vaddr = 0x1000, p_memsz = 0x1000\<rparr>) + 0x1000
                - int (p_vaddr \<lparr>p_offset = 0, p_vaddr = 0x1000, p_memsz = 0x1000\<rparr>))"
      using read_memory_translated_read [OF f, of core_file 16] by (rule conjunct1)
    then show ?thesis by (simp add: os_pread_def)
  qed
  with f show ?thesis by blast
qed

text \<open>
  When \<^verbatim>\<open>read_memory\<close> raises the error of its \<^verbatim>\<open>else\<close> branch: exactly when the
  test of line 102 fails for every segment of the table; and then no segment contains
  the address in its half-open range either.
\<close>

theorem read_memory_error_iff:
  "(read_memory phdrs core_file address sz = Inl (ValueError_no_segment address)
      \<longleftrightarrow> (\<forall>ph \<in> set phdrs. \<not> phdr_matches ph address))
   \<and> (read_memory phdrs core_file address sz = Inl (ValueError_no_segment address)
      \<longrightarrow> (\<forall>ph \<in> set phdrs. \<not> in_segment ph address))"
proof -
  have a: "read_memory phdrs core_file address sz = Inl (ValueError_no_segment address)
      \<longleftrightarrow> find_phdr phdrs address = None"
    by (cases "find_phdr phdrs address") (simp_all add: read_memory_def os_pread_def)
  then have b: "read_memory phdrs core_file address sz = Inl (ValueError_no_segment address)
      \<longleftrightarrow> (\<forall>ph \<in> set phdrs. \<not> phdr_matches ph address)"
    by (simp add: find_phdr_None_iff)
  with in_segment_matches show ?thesis by blast
qed

text \<open>
  The image of one segment \<open>[0x1000, 0x2000)\<close>: \<^verbatim>\<open>read_memory(0x3000, 1)\<close> raises
  the error.
\<close>

theorem read_memory_error_iff_witness:
  "\<not> phdr_matches \<lparr>p_offset = 0, p_vaddr = 0x1000, p_memsz = 0x1000\<rparr> 0x3000
   \<and> (\<forall>core_file.
         read_memory [\<lparr>p_offset = 0, p_vaddr = 0x1000, p_memsz = 0x1000\<rparr>] core_file 0x3000 1
           = Inl (ValueError_no_segment 0x3000))"
proof -
  have n: "\<not> phdr_matches \<lparr>p_offset = 0, p_vaddr = 0x1000, p_memsz = 0x1000\<rparr> 0x3000"
    by (simp add: phdr_matches_def)
  have "read_memory [\<lparr>p_offset = 0, p_vaddr = 0x1000, p_memsz = 0x1000\<rparr>] core_file 0x3000 1
           = Inl (ValueError_no_segment 0x3000)" for core_file
    using read_memory_error_iff
      [of "[\<lparr>p_offset = 0, p_vaddr = 0x1000, p_memsz = 0x1000\<rparr>]" core_file "0x3000" 1] n
    by simp
  with n show ?thesis by blast
qed

section \<open>The symbol table and \<^verbatim>\<open>lookup_variable\<close>: lemmas\<close>

lemma add_symbol_apply:
  "add_symbol m l n =
     (if sym_name l = n
      then Some ((case m n of None \<Rightarrow> [] | Some addresses \<Rightarrow> addresses) @ [sym_address l])
      else m n)"
  by (simp add: add_symbol_def)

lemma foldl_add_symbol:
  "foldl add_symbol m ls n =
     (if filter (\<lambda>l. sym_name l = n) ls = [] then m n
      else Some ((case m n of None \<Rightarrow> [] | Some addresses \<Rightarrow> addresses)
                 @ map sym_address (filter (\<lambda>l. sym_name l = n) ls)))"
proof (induction ls arbitrary: m)
  case Nil
  then show ?case by simp
next
  case (Cons l ls)
  have "foldl add_symbol m (l # ls) n = foldl add_symbol (add_symbol m l) ls n"
    by simp
  also have "\<dots> =
     (if filter (\<lambda>l. sym_name l = n) ls = [] then add_symbol m l n
      else Some ((case add_symbol m l n of None \<Rightarrow> [] | Some addresses \<Rightarrow> addresses)
                 @ map sym_address (filter (\<lambda>l. sym_name l = n) ls)))"
    by (rule Cons.IH)
  finally have e: "foldl add_symbol m (l # ls) n =
     (if filter (\<lambda>l. sym_name l = n) ls = [] then add_symbol m l n
      else Some ((case add_symbol m l n of None \<Rightarrow> [] | Some addresses \<Rightarrow> addresses)
                 @ map sym_address (filter (\<lambda>l. sym_name l = n) ls)))" .
  show ?case
    by (subst e) (simp add: add_symbol_apply)
qed

lemma parse_symbol_file_lookup:
  "parse_symbol_file ls n =
     (if filter (\<lambda>l. sym_name l = n) ls = [] then None
      else Some (map sym_address (filter (\<lambda>l. sym_name l = n) ls)))"
  by (simp add: parse_symbol_file_def foldl_add_symbol)

section \<open>The symbol table and \<^verbatim>\<open>lookup_variable\<close>: properties\<close>

text \<open>
  C2 (the last address wins). For every name that appears in the listing, the lookup of
  line 96 in the parsed table returns the address of the last line of the listing that
  has the name; and the table of the three lines \<^verbatim>\<open>1000 D foo\<close>, \<^verbatim>\<open>2000 D foo\<close>,
  \<^verbatim>\<open>3000 D foo\<close> (addresses in hexadecimal) gives \<open>0x3000\<close> for \<^verbatim>\<open>foo\<close>.
\<close>

theorem lookup_last_address:
  "(n \<in> sym_name ` set ls \<longrightarrow>
      lookup_address (parse_symbol_file ls) n
        = Inr (last (map sym_address (filter (\<lambda>l. sym_name l = n) ls))))
   \<and> lookup_address
        (parse_symbol_file
          [\<lparr>sym_address = 0x1000, sym_kind = CHR ''D'', sym_name = ''foo'', sym_module = None\<rparr>,
           \<lparr>sym_address = 0x2000, sym_kind = CHR ''D'', sym_name = ''foo'', sym_module = None\<rparr>,
           \<lparr>sym_address = 0x3000, sym_kind = CHR ''D'', sym_name = ''foo'', sym_module = None\<rparr>])
        ''foo'' = Inr 0x3000"
proof -
  have "filter (\<lambda>l. sym_name l = n) ls \<noteq> []" if "n \<in> sym_name ` set ls"
    using that by (auto simp: filter_empty_conv)
  then have a: "n \<in> sym_name ` set ls \<longrightarrow>
      lookup_address (parse_symbol_file ls) n
        = Inr (last (map sym_address (filter (\<lambda>l. sym_name l = n) ls)))"
    by (simp add: lookup_address_def parse_symbol_file_lookup)
  have b: "lookup_address
        (parse_symbol_file
          [\<lparr>sym_address = 0x1000, sym_kind = CHR ''D'', sym_name = ''foo'', sym_module = None\<rparr>,
           \<lparr>sym_address = 0x2000, sym_kind = CHR ''D'', sym_name = ''foo'', sym_module = None\<rparr>,
           \<lparr>sym_address = 0x3000, sym_kind = CHR ''D'', sym_name = ''foo'', sym_module = None\<rparr>])
        ''foo'' = Inr 0x3000"
    by (simp add: lookup_address_def parse_symbol_file_def add_symbol_def)
  from a b show ?thesis by simp
qed

text \<open>
  A listing in which \<^verbatim>\<open>bar\<close> appears twice, the second time in a module, with
  another name between the two.
\<close>

theorem lookup_last_address_witness:
  "''bar'' \<in> sym_name ` set
      [\<lparr>sym_address = 0x10, sym_kind = CHR ''T'', sym_name = ''bar'', sym_module = None\<rparr>,
       \<lparr>sym_address = 0x20, sym_kind = CHR ''D'', sym_name = ''foo'', sym_module = None\<rparr>,
       \<lparr>sym_address = 0x30, sym_kind = CHR ''t'', sym_name = ''bar'', sym_module = Some ''ext4''\<rparr>]
   \<and> lookup_address (parse_symbol_file
      [\<lparr>sym_address = 0x10, sym_kind = CHR ''T'', sym_name = ''bar'', sym_module = None\<rparr>,
       \<lparr>sym_address = 0x20, sym_kind = CHR ''D'', sym_name = ''foo'', sym_module = None\<rparr>,
       \<lparr>sym_address = 0x30, sym_kind = CHR ''t'', sym_name = ''bar'', sym_module = Some ''ext4''\<rparr>])
      ''bar'' = Inr 0x30"
  using lookup_last_address [of "''bar''"
      "[\<lparr>sym_address = 0x10, sym_kind = CHR ''T'', sym_name = ''bar'', sym_module = None\<rparr>,
       \<lparr>sym_address = 0x20, sym_kind = CHR ''D'', sym_name = ''foo'', sym_module = None\<rparr>,
       \<lparr>sym_address = 0x30, sym_kind = CHR ''t'', sym_name = ''bar'', sym_module = Some ''ext4''\<rparr>]"]
  by simp

text \<open>
  C6 (no partial success). For every name, \<^verbatim>\<open>lookup_variable\<close> either returns the
  pair of the address from the symbol table and the type that the type index resolved
  for the record the debug index found, or it raises the exception of the first step
  that failed, in the order symbol table, debug index, type of the record, type index;
  an exception carries neither component.
\<close>

theorem lookup_variable_all_or_nothing:
  "(\<exists>address die dwarf_type ty.
      lookup_address symbols name = Inr address \<and> dwarf_index_find name Variable = Inr die
      \<and> die_type die = Inr dwarf_type \<and> find_dwarf_type dwarf_type = Inr ty
      \<and> lookup_variable symbols dwarf_index_find die_type find_dwarf_type name = Inr (address, ty))
   \<or> (\<exists>e. lookup_variable symbols dwarf_index_find die_type find_dwarf_type name = Inl e
        \<and> (lookup_address symbols name = Inl e
           \<or> (\<exists>address. lookup_address symbols name = Inr address
                \<and> (dwarf_index_find name Variable = Inl e
                   \<or> (\<exists>die. dwarf_index_find name Variable = Inr die
                        \<and> (die_type die = Inl e
                           \<or> (\<exists>dwarf_type. die_type die = Inr dwarf_type
                                \<and> find_dwarf_type dwarf_type = Inl e)))))))"
  by (auto simp: lookup_variable_def split: sum.splits)

section \<open>The paths of the debug information index: lemmas\<close>

lemma DwarfIndex_find_append:
  "DwarfIndex_find binaries (xs @ ys) name k =
     (case DwarfIndex_find binaries xs name k of
        Inr r \<Rightarrow> Inr r
      | Inl e \<Rightarrow> DwarfIndex_find binaries ys name k)"
  by (induction xs) (auto split: option.splits)

lemma DwarfIndex_find_Inr:
  "DwarfIndex_find binaries xs name k = Inr r \<Longrightarrow>
   \<exists>pre p post. xs = pre @ p # post \<and> binaries p (name, k) = Some r
      \<and> (\<forall>q \<in> set pre. binaries q (name, k) = None)"
proof (induction xs)
  case Nil
  then show ?case by simp
next
  case (Cons x xs)
  show ?case
  proof (cases "binaries x (name, k)")
    case None
    with Cons.prems have "DwarfIndex_find binaries xs name k = Inr r" by simp
    from Cons.IH [OF this] obtain pre p post where
      "xs = pre @ p # post" "binaries p (name, k) = Some r"
      "\<forall>q \<in> set pre. binaries q (name, k) = None" by blast
    with None have "x # xs = (x # pre) @ p # post \<and> binaries p (name, k) = Some r
      \<and> (\<forall>q \<in> set (x # pre). binaries q (name, k) = None)" by simp
    then show ?thesis by blast
  next
    case (Some a)
    with Cons.prems have "a = r" by simp
    with Some have "x # xs = [] @ x # xs \<and> binaries x (name, k) = Some r
      \<and> (\<forall>q \<in> set []. binaries q (name, k) = None)" by simp
    then show ?thesis by blast
  qed
qed

lemma DwarfIndex_find_Inl:
  "DwarfIndex_find binaries xs name k = Inl e \<longleftrightarrow>
     e = NotFound \<and> (\<forall>p \<in> set xs. binaries p (name, k) = None)"
  by (induction xs) (auto split: option.splits)

section \<open>The paths of the debug information index: properties\<close>

text \<open>
  C10 (modules first, the executable last). Whenever \<^verbatim>\<open>main\<close> reaches the call
  \<^verbatim>\<open>DwarfIndex(paths)\<close>, the list is the module paths that \<^verbatim>\<open>find_modules\<close> found,
  in their order, followed by the path of the executable (the one given on the command
  line, else the one \<^verbatim>\<open>find_vmlinux\<close> found) as its last element. With an index that
  returns the record of the first binary that has one, a lookup over this list is
  decided by the modules whenever one of them has a record for the name and kind, and
  by the executable only when none has.
\<close>

theorem main_paths_modules_then_executable:
  assumes "main_paths path_exists glob release args = Inr paths"
  shows "\<exists>executable_path.
           paths = find_modules glob release @ [executable_path]
         \<and> last paths = executable_path
         \<and> (case executable args of
               Some path \<Rightarrow> executable_path = path
             | None \<Rightarrow> find_vmlinux path_exists release = Inr executable_path)
         \<and> (\<forall>name k.
               DwarfIndex_find binaries paths name k =
                 (case DwarfIndex_find binaries (find_modules glob release) name k of
                    Inr r \<Rightarrow> Inr r
                  | Inl e \<Rightarrow>
                      (case binaries executable_path (name, k) of
                         Some r \<Rightarrow> Inr r
                       | None \<Rightarrow> Inl NotFound)))"
proof -
  from assms obtain executable_path where
    p: "paths = find_modules glob release @ [executable_path]" and
    e: "case executable args of
               Some path \<Rightarrow> executable_path = path
             | None \<Rightarrow> find_vmlinux path_exists release = Inr executable_path"
    by (auto simp: main_paths_def split: if_splits option.splits sum.splits)
  have "DwarfIndex_find binaries paths name k =
                 (case DwarfIndex_find binaries (find_modules glob release) name k of
                    Inr r \<Rightarrow> Inr r
                  | Inl e \<Rightarrow>
                      (case binaries executable_path (name, k) of
                         Some r \<Rightarrow> Inr r
                       | None \<Rightarrow> Inl NotFound))" for name k
    by (simp add: p DwarfIndex_find_append split: sum.splits option.splits)
  with p e show ?thesis by auto
qed

text \<open>
  Two modules found by the second pattern, and an executable given on the command line;
  the second module and the executable both have a variable \<^verbatim>\<open>bar\<close>, and the lookup
  returns the record of the module.
\<close>

theorem main_paths_modules_then_executable_witness:
  "main_paths (\<lambda>path. False)
      (\<lambda>pattern. if pattern = ''/lib/modules/5.0/kernel/**/*.ko''
         then [''/lib/modules/5.0/kernel/fs/ext4.ko'', ''/lib/modules/5.0/kernel/fs/xfs.ko'']
         else [])
      ''5.0'' \<lparr>kernel = True, executable = Some ''vmlinux'', script = []\<rparr>
     = Inr [''/lib/modules/5.0/kernel/fs/ext4.ko'', ''/lib/modules/5.0/kernel/fs/xfs.ko'', ''vmlinux'']
   \<and> DwarfIndex_find
        (\<lambda>path. if path = ''vmlinux'' then [(''bar'', Variable) \<mapsto> (1::nat)]
           else if path = ''/lib/modules/5.0/kernel/fs/xfs.ko'' then [(''bar'', Variable) \<mapsto> 2]
           else Map.empty)
        [''/lib/modules/5.0/kernel/fs/ext4.ko'', ''/lib/modules/5.0/kernel/fs/xfs.ko'', ''vmlinux'']
        ''bar'' Variable = Inr 2"
proof -
  have m: "main_paths (\<lambda>path. False)
      (\<lambda>pattern. if pattern = ''/lib/modules/5.0/kernel/**/*.ko''
         then [''/lib/modules/5.0/kernel/fs/ext4.ko'', ''/lib/modules/5.0/kernel/fs/xfs.ko'']
         else [])
      ''5.0'' \<lparr>kernel = True, executable = Some ''vmlinux'', script = []\<rparr>
     = Inr [''/lib/modules/5.0/kernel/fs/ext4.ko'', ''/lib/modules/5.0/kernel/fs/xfs.ko'', ''vmlinux'']"
    by (simp add: main_paths_def find_modules_def)
  from main_paths_modules_then_executable [OF m,
      of "\<lambda>path. if path = ''vmlinux'' then [(''bar'', Variable) \<mapsto> (1::nat)]
           else if path = ''/lib/modules/5.0/kernel/fs/xfs.ko'' then [(''bar'', Variable) \<mapsto> 2]
           else Map.empty"]
  show ?thesis using m by (simp add: find_modules_def)
qed

section \<open>The type resolver: lemmas\<close>

lemma extends_refl: "extends a a"
  unfolding extends_def by blast

lemma extends_trans: "extends a b \<Longrightarrow> extends b c \<Longrightarrow> extends a c"
  unfolding extends_def by blast

lemma extends_dom: "extends a a' \<Longrightarrow> dom a \<subseteq> dom a'"
  unfolding extends_def by blast

lemma extends_keeps: "extends a a' \<Longrightarrow> a k = Some e \<Longrightarrow> a' k = Some e"
  unfolding extends_def by blast

lemma extends_in_progress: "extends a a' \<Longrightarrow> a' k = Some InProgress \<Longrightarrow> a k = Some InProgress"
  unfolding extends_def by blast

lemma extends_fill:
  assumes "a i = None" and "extends (a(i \<mapsto> InProgress)) b"
  shows "extends a (b(i \<mapsto> Resolved d))"
  unfolding extends_def
proof (intro conjI allI impI)
  fix k e
  assume ak: "a k = Some e"
  with assms(1) have ne: "k \<noteq> i" by auto
  with ak have "(a(i \<mapsto> InProgress)) k = Some e" by simp
  with assms(2) have "b k = Some e" by (rule extends_keeps)
  with ne show "(b(i \<mapsto> Resolved d)) k = Some e" by simp
next
  fix k
  assume p: "(b(i \<mapsto> Resolved d)) k = Some InProgress"
  then have ne: "k \<noteq> i" by (auto split: if_splits)
  with p have "b k = Some InProgress" by simp
  with assms(2) have "(a(i \<mapsto> InProgress)) k = Some InProgress"
    by (rule extends_in_progress)
  with ne show "a k = Some InProgress" by simp
qed

lemma resolve_all_extends:
  assumes "\<And>a i k a'. f a i = Some (Inr (k, a')) \<Longrightarrow> extends a a' \<and> a' i \<noteq> None"
    and "resolve_all f a ks = Some (Inr a')"
  shows "extends a a' \<and> set ks \<subseteq> dom a'"
  using assms(2)
proof (induction ks arbitrary: a)
  case Nil
  then show ?case by (simp add: extends_refl)
next
  case (Cons i ks)
  from Cons.prems obtain k a1 where
    s: "f a i = Some (Inr (k, a1))" and r: "resolve_all f a1 ks = Some (Inr a')"
    by (auto split: option.splits sum.splits)
  from assms(1) [OF s] have e1: "extends a a1" and i1: "a1 i \<noteq> None" by simp_all
  from Cons.IH [OF r] have e2: "extends a1 a'" and ks: "set ks \<subseteq> dom a'" by simp_all
  from i1 e2 have "i \<in> dom a'" using extends_dom by blast
  moreover from e1 e2 have "extends a a'" by (rule extends_trans)
  ultimately show ?case using ks by simp
qed

lemma resolve_Suc_uncached:
  assumes "a i = None" and "map_of records i = Some r" and "describe r = Inr d"
  shows "resolve (Suc fuel) records a i =
     (case resolve_all (resolve fuel records) (a(i \<mapsto> InProgress)) (refs_of d) of
        None \<Rightarrow> None
      | Some (Inl e) \<Rightarrow> Some (Inl e)
      | Some (Inr a') \<Rightarrow> Some (Inr (i, a'(i \<mapsto> Resolved d))))"
  using assms by simp

lemma resolve_extends:
  "resolve fuel records a i = Some (Inr (k, a')) \<Longrightarrow> k = i \<and> extends a a' \<and> a' i \<noteq> None"
proof (induction fuel arbitrary: a i k a')
  case 0
  then show ?case by simp
next
  case (Suc fuel)
  show ?case
  proof (cases "a i")
    case (Some e)
    with Suc.prems show ?thesis by (auto simp: extends_refl)
  next
    case None
    show ?thesis
    proof (cases "map_of records i")
      case n: None
      with None Suc.prems show ?thesis by simp
    next
      case (Some r)
      show ?thesis
      proof (cases "describe r")
        case (Inl e)
        with None Some Suc.prems show ?thesis by simp
      next
        case (Inr d)
        note u = resolve_Suc_uncached [of a i records r d fuel, OF None Some Inr]
        from Suc.prems obtain a2 where
          ra: "resolve_all (resolve fuel records) (a(i \<mapsto> InProgress)) (refs_of d) = Some (Inr a2)"
          and k: "k = i" and a': "a' = a2(i \<mapsto> Resolved d)"
          unfolding u by (auto split: option.splits sum.splits)
        have step: "extends b b' \<and> b' j \<noteq> None"
          if "resolve fuel records b j = Some (Inr (l, b'))" for b j l b'
          using Suc.IH [OF that] by simp
        have "extends (a(i \<mapsto> InProgress)) a2"
          using resolve_all_extends [of "resolve fuel records", OF step ra] by simp
        with None have "extends a (a2(i \<mapsto> Resolved d))" by (rule extends_fill)
        then have "extends a a'" unfolding a' .
        moreover have "a' i \<noteq> None" unfolding a' by simp
        ultimately show ?thesis using k by blast
      qed
    qed
  qed
qed

lemma resolve_all_returns:
  assumes "\<And>a' i. extends a a' \<Longrightarrow> f a' i \<noteq> None"
    and "\<And>a i k a'. f a i = Some (Inr (k, a')) \<Longrightarrow> extends a a'"
  shows "resolve_all f a ks \<noteq> None"
  using assms(1)
proof (induction ks arbitrary: a)
  case Nil
  then show ?case by simp
next
  case (Cons i ks)
  from Cons.prems [OF extends_refl] obtain x where x: "f a i = Some x" by blast
  show ?case
  proof (cases x)
    case (Inl e)
    with x show ?thesis by simp
  next
    case (Inr p)
    obtain k a1 where p: "p = (k, a1)" by (cases p)
    with x Inr have s: "f a i = Some (Inr (k, a1))" by simp
    from assms(2) [OF s] have "extends a a1" .
    then have "\<And>a' j. extends a1 a' \<Longrightarrow> f a' j \<noteq> None"
      using Cons.prems extends_trans by blast
    from Cons.IH [OF this] s show ?thesis by simp
  qed
qed

lemma resolve_returns:
  "card (fst ` set records - dom a) < fuel \<Longrightarrow> resolve fuel records a i \<noteq> None"
proof (induction fuel arbitrary: a i)
  case 0
  then show ?case by simp
next
  case (Suc fuel)
  show ?case
  proof (cases "a i")
    case (Some e)
    then show ?thesis by simp
  next
    case None
    show ?thesis
    proof (cases "map_of records i")
      case n: None
      with None show ?thesis by simp
    next
      case (Some r)
      then have iD: "i \<in> fst ` set records"
        by (metis map_of_eq_None_iff option.distinct(1))
      show ?thesis
      proof (cases "describe r")
        case (Inl e)
        with None Some show ?thesis by simp
      next
        case (Inr d)
        have shrink: "card (fst ` set records - dom a') < fuel"
          if "extends (a(i \<mapsto> InProgress)) a'" for a'
        proof -
          from that have "insert i (dom a) \<subseteq> dom a'"
            using extends_dom by fastforce
          with iD None have "fst ` set records - dom a' \<subset> fst ` set records - dom a"
            by auto
          then have "card (fst ` set records - dom a') < card (fst ` set records - dom a)"
            by (simp add: psubset_card_mono)
          with Suc.prems show ?thesis by simp
        qed
        have "resolve_all (resolve fuel records) (a(i \<mapsto> InProgress)) (refs_of d) \<noteq> None"
        proof (rule resolve_all_returns)
          fix a' j
          assume "extends (a(i \<mapsto> InProgress)) a'"
          then show "resolve fuel records a' j \<noteq> None"
            using shrink Suc.IH by blast
        next
          fix b j k b'
          assume "resolve fuel records b j = Some (Inr (k, b'))"
          then show "extends b b'" using resolve_extends by blast
        qed
        with None Some Inr show ?thesis
          by (auto split: option.splits sum.splits)
      qed
    qed
  qed
qed

lemma card_identities: "card (fst ` set records - dom a) \<le> length records"
proof -
  have "card (fst ` set records - dom a) \<le> card (fst ` set records)"
    by (simp add: card_mono)
  also have "\<dots> \<le> card (set records)" by (simp add: card_image_le)
  also have "\<dots> \<le> length records" by (rule card_length)
  finally show ?thesis .
qed

lemma resolve_all_cong_Some:
  assumes "\<And>a i y. f a i = Some y \<Longrightarrow> g a i = Some y"
    and "resolve_all f a ks = Some z"
  shows "resolve_all g a ks = Some z"
  using assms(2)
proof (induction ks arbitrary: a)
  case Nil
  then show ?case by simp
next
  case (Cons i ks)
  from Cons.prems obtain y where y: "f a i = Some y"
    by (auto split: option.splits)
  with assms(1) have g: "g a i = Some y" by simp
  show ?case
  proof (cases y)
    case (Inl e)
    with y g Cons.prems show ?thesis by simp
  next
    case (Inr p)
    obtain k a1 where "p = (k, a1)" by (cases p)
    with Inr y g Cons.prems Cons.IH show ?thesis by simp
  qed
qed

lemma resolve_more_fuel:
  "resolve fuel records a i = Some y \<Longrightarrow> resolve (Suc fuel) records a i = Some y"
proof (induction fuel arbitrary: a i y)
  case 0
  then show ?case by simp
next
  case (Suc fuel)
  have c: "resolve_all (resolve (Suc fuel) records) b ks = Some z"
    if "resolve_all (resolve fuel records) b ks = Some z" for b ks z
    using Suc.IH that by (rule resolve_all_cong_Some)
  show ?case
  proof (cases "a i")
    case (Some e)
    with Suc.prems show ?thesis by simp
  next
    case None
    show ?thesis
    proof (cases "map_of records i")
      case n: None
      with None Suc.prems show ?thesis by simp
    next
      case (Some r)
      show ?thesis
      proof (cases "describe r")
        case (Inl e)
        with None Some Suc.prems show ?thesis by simp
      next
        case (Inr d)
        from None Some Inr Suc.prems obtain z where
          z: "resolve_all (resolve fuel records) (a(i \<mapsto> InProgress)) (refs_of d) = Some z"
          by (auto split: option.splits)
        from c [OF z] z None Some Inr Suc.prems show ?thesis
          by (simp del: resolve.simps add: resolve.simps(2) [of "Suc fuel"] resolve.simps(2) [of fuel])
      qed
    qed
  qed
qed

lemma resolve_add_fuel:
  "resolve fuel records a i = Some y \<Longrightarrow> resolve (fuel + m) records a i = Some y"
proof (induction m)
  case 0
  then show ?case by simp
next
  case (Suc m)
  then have "resolve (fuel + m) records a i = Some y" by simp
  then have "resolve (Suc (fuel + m)) records a i = Some y" by (rule resolve_more_fuel)
  then show ?case by (simp del: resolve.simps)
qed

lemma resolve_fuel_mono:
  assumes "resolve fuel records a i = Some y" and "fuel \<le> fuel'"
  shows "resolve fuel' records a i = Some y"
proof -
  from assms(2) have "fuel' = fuel + (fuel' - fuel)" by simp
  then show ?thesis using resolve_add_fuel [OF assms(1)] by metis
qed

lemma well_formed_register:
  assumes "well_formed records a"
  shows "well_formed records (a(i \<mapsto> InProgress))"
  unfolding well_formed_def
proof (intro allI impI)
  fix k d
  assume h: "(a(i \<mapsto> InProgress)) k = Some (Resolved d)"
  then have "k \<noteq> i" by (auto split: if_splits)
  with h have "a k = Some (Resolved d)" by simp
  with assms have "(\<exists>r. map_of records k = Some r \<and> describe r = Inr d)"
    and "set (refs_of d) \<subseteq> dom a"
    unfolding well_formed_def by blast+
  then show "(\<exists>r. map_of records k = Some r \<and> describe r = Inr d)
      \<and> set (refs_of d) \<subseteq> dom (a(i \<mapsto> InProgress))"
    by auto
qed

lemma well_formed_fill:
  assumes "well_formed records a" and "map_of records i = Some r" and "describe r = Inr d"
    and "set (refs_of d) \<subseteq> dom a"
  shows "well_formed records (a(i \<mapsto> Resolved d))"
  unfolding well_formed_def
proof (intro allI impI)
  fix k d'
  assume h: "(a(i \<mapsto> Resolved d)) k = Some (Resolved d')"
  show "(\<exists>r. map_of records k = Some r \<and> describe r = Inr d')
      \<and> set (refs_of d') \<subseteq> dom (a(i \<mapsto> Resolved d))"
  proof (cases "k = i")
    case True
    with h have "d' = d" by simp
    with True assms(2,3,4) show ?thesis by auto
  next
    case False
    with h have "a k = Some (Resolved d')" by simp
    with assms(1) have "(\<exists>r. map_of records k = Some r \<and> describe r = Inr d')"
      and "set (refs_of d') \<subseteq> dom a"
      unfolding well_formed_def by blast+
    then show ?thesis by auto
  qed
qed

lemma resolve_all_preserves:
  assumes "\<And>a i k a'. f a i = Some (Inr (k, a')) \<Longrightarrow> P a \<Longrightarrow> P a'"
    and "resolve_all f a ks = Some (Inr a')" and "P a"
  shows "P a'"
  using assms(2,3)
proof (induction ks arbitrary: a)
  case Nil
  then show ?case by simp
next
  case (Cons i ks)
  from Cons.prems(1) obtain k a1 where
    s: "f a i = Some (Inr (k, a1))" and r: "resolve_all f a1 ks = Some (Inr a')"
    by (auto split: option.splits sum.splits)
  from assms(1) [OF s Cons.prems(2)] have "P a1" .
  with Cons.IH r show ?case by blast
qed

lemma resolve_well_formed:
  "resolve fuel records a i = Some (Inr (k, a')) \<Longrightarrow> well_formed records a
   \<Longrightarrow> well_formed records a'"
proof (induction fuel arbitrary: a i k a')
  case 0
  then show ?case by simp
next
  case (Suc fuel)
  show ?case
  proof (cases "a i")
    case (Some e)
    with Suc.prems show ?thesis by auto
  next
    case None
    show ?thesis
    proof (cases "map_of records i")
      case n: None
      with None Suc.prems show ?thesis by simp
    next
      case (Some r)
      show ?thesis
      proof (cases "describe r")
        case (Inl e)
        with None Some Suc.prems show ?thesis by simp
      next
        case (Inr d)
        note u = resolve_Suc_uncached [of a i records r d fuel, OF None Some Inr]
        from Suc.prems(1) obtain a2 where
          ra: "resolve_all (resolve fuel records) (a(i \<mapsto> InProgress)) (refs_of d) = Some (Inr a2)"
          and a': "a' = a2(i \<mapsto> Resolved d)"
          unfolding u by (auto split: option.splits sum.splits)
        have step: "extends b b' \<and> b' j \<noteq> None"
          if "resolve fuel records b j = Some (Inr (l, b'))" for b j l b'
          using resolve_extends [OF that] by simp
        have refs: "set (refs_of d) \<subseteq> dom a2"
          using resolve_all_extends [of "resolve fuel records", OF step ra] by simp
        have w1: "well_formed records (a(i \<mapsto> InProgress))"
          using Suc.prems(2) by (rule well_formed_register)
        have "well_formed records a2"
          using resolve_all_preserves [of "resolve fuel records" "well_formed records", OF Suc.IH ra w1] .
        then have "well_formed records (a2(i \<mapsto> Resolved d))"
          using Some Inr refs by (rule well_formed_fill)
        then show ?thesis unfolding a' .
      qed
    qed
  qed
qed

lemma resolve_complete:
  assumes "resolve fuel records a i = Some (Inr (k, a'))" and "complete records a"
  shows "complete records a'"
proof -
  from assms have w: "well_formed records a'"
    using resolve_well_formed unfolding complete_def by blast
  from assms(1) have e: "extends a a'" using resolve_extends by blast
  have "a' j \<noteq> Some InProgress" for j
  proof
    assume "a' j = Some InProgress"
    with e have "a j = Some InProgress" by (rule extends_in_progress)
    with assms(2) show False unfolding complete_def by blast
  qed
  with w show ?thesis unfolding complete_def by blast
qed

lemma complete_entry:
  assumes "complete records a" and "a k = Some e"
  shows "\<exists>r d. map_of records k = Some r \<and> describe r = Inr d \<and> e = Resolved d
           \<and> set (refs_of d) \<subseteq> dom a"
proof (cases e)
  case InProgress
  with assms show ?thesis unfolding complete_def by blast
next
  case (Resolved d)
  with assms show ?thesis unfolding complete_def well_formed_def by blast
qed

lemma follow_complete:
  assumes "complete records a"
  shows "k \<in> dom a \<Longrightarrow> follow a k path = follow_records records k path"
proof (induction path arbitrary: k)
  case Nil
  then show ?case by simp
next
  case (Cons n ns)
  from Cons.prems obtain e where e: "a k = Some e" by blast
  from complete_entry [OF assms e] obtain r d where
    r: "map_of records k = Some r" and d: "describe r = Inr d" and ed: "e = Resolved d"
    and refs: "set (refs_of d) \<subseteq> dom a" by blast
  show ?case
  proof (cases "n < length (refs_of d)")
    case True
    then have "refs_of d ! n \<in> dom a" using refs nth_mem by blast
    from Cons.IH [OF this] True e r d ed show ?thesis by simp
  next
    case False
    with e r d ed show ?thesis by simp
  qed
qed

lemma resolve_cached:
  "a i = Some e \<Longrightarrow> resolve (Suc fuel) records a i = Some (Inr (i, a))"
  by simp

lemmas describe_simps = describe_def bind_def attr_const_def attr_str_def attr_ref_def
  attr_ref_or_void_def children_of_def member_of_def enumerator_of_def keys_of_def

lemma node_resolves:
  "\<exists>a'. resolve 4 node_records Map.empty (0, 0x10) = Some (Inr ((0, 0x10), a'))"
  by (simp add: node_records_def numeral_eq_Suc describe_simps)


lemma pair_resolves:
  "\<exists>a'. resolve 5 pair_records Map.empty (1, 0x10) = Some (Inr ((1, 0x10), a'))"
  by (simp add: pair_records_def numeral_eq_Suc describe_simps)

section \<open>The type resolver: properties\<close>

text \<open>
  C7 (resolution terminates). For every set of debug records, every cache and every
  record, a resolution whose depth bound exceeds the number of records returns, with a
  descriptor or a failure, and a larger bound gives the same result: each level of the
  recursion registers one more record in the cache before it recurses, so the depth
  never exceeds the number of records by more than one. A reference back to a record
  whose resolution is in progress returns its placeholder with the cache unchanged.
\<close>

theorem resolve_terminates:
  assumes "length records < fuel"
  shows "(\<exists>result. resolve fuel records arena i = Some result)
       \<and> (\<forall>fuel' \<ge> fuel. resolve fuel' records arena i = resolve fuel records arena i)
       \<and> (arena i = Some InProgress \<longrightarrow> resolve fuel records arena i = Some (Inr (i, arena)))"
proof -
  have "card (fst ` set records - dom arena) < fuel"
    using card_identities [of records arena] assms by simp
  then have "resolve fuel records arena i \<noteq> None" by (rule resolve_returns)
  then obtain result where r: "resolve fuel records arena i = Some result" by blast
  have m: "resolve fuel' records arena i = resolve fuel records arena i" if "fuel \<le> fuel'" for fuel'
    using resolve_fuel_mono [OF r that] r by simp
  from assms obtain n where n: "fuel = Suc n" by (cases fuel) simp_all
  have p: "resolve fuel records arena i = Some (Inr (i, arena))" if "arena i = Some InProgress"
    unfolding n using that by (rule resolve_cached)
  from r m p show ?thesis by blast
qed

text \<open>
  The list node that refers to itself: three records, resolved within the bound 4.
\<close>

theorem resolve_terminates_witness:
  "length node_records < 4
   \<and> (\<exists>a'. resolve 4 node_records Map.empty (0, 0x10) = Some (Inr ((0, 0x10), a')))
   \<and> resolve 7 node_records Map.empty (0, 0x10) = resolve 4 node_records Map.empty (0, 0x10)"
proof -
  have l: "length node_records < 4" by (simp add: node_records_def)
  from resolve_terminates [OF l, of Map.empty "(0, 0x10)"]
  have "\<forall>fuel' \<ge> 4. resolve fuel' node_records Map.empty (0, 0x10)
          = resolve 4 node_records Map.empty (0, 0x10)"
    by (rule conjunct1 [OF conjunct2])
  moreover have "(4::nat) \<le> 7" by simp
  ultimately have "resolve 7 node_records Map.empty (0, 0x10)
          = resolve 4 node_records Map.empty (0, 0x10)" by blast
  with l node_resolves show ?thesis by blast
qed

text \<open>
  C8 (sharing and idempotence). When a resolution returns a descriptor, its key is the
  identity of the record, and resolving the same record again returns the same key and
  leaves the cache as it is: the same cached descriptor. When the resolution started
  from a cache with no placeholder in it, the cache it leaves has none either, the
  entry of the record is the descriptor of that record, and following any chain of
  references from it in the cache reaches the same key as following it in the debug
  records; so a chain that leads back to the record leads back to its one descriptor.
\<close>

theorem resolve_idempotent_sharing:
  assumes "resolve fuel records arena i = Some (Inr (k, arena'))"
  shows "k = i
       \<and> resolve (Suc fuel') records arena' i = Some (Inr (k, arena'))
       \<and> (complete records arena \<longrightarrow>
            complete records arena'
          \<and> (\<exists>r d. map_of records i = Some r \<and> describe r = Inr d
                   \<and> arena' i = Some (Resolved d))
          \<and> follow arena' i path = follow_records records i path)"
proof -
  from resolve_extends [OF assms] have k: "k = i" and ne: "arena' i \<noteq> None" by simp_all
  from ne obtain e where e: "arena' i = Some e" by blast
  then have again: "resolve (Suc fuel') records arena' i = Some (Inr (i, arena'))"
    by (rule resolve_cached)
  have rest: "complete records arena'
          \<and> (\<exists>r d. map_of records i = Some r \<and> describe r = Inr d
                   \<and> arena' i = Some (Resolved d))
          \<and> follow arena' i path = follow_records records i path"
    if c: "complete records arena"
  proof -
    from assms c have c': "complete records arena'" by (rule resolve_complete)
    from complete_entry [OF c' e] e have
      "\<exists>r d. map_of records i = Some r \<and> describe r = Inr d \<and> arena' i = Some (Resolved d)"
      by blast
    moreover from e have "i \<in> dom arena'" by blast
    then have "follow arena' i path = follow_records records i path"
      by (rule follow_complete [OF c'])
    ultimately show ?thesis using c' by blast
  qed
  from k again rest show ?thesis by blast
qed

text \<open>
  The two structures that refer to each other: from \<^verbatim>\<open>struct a\<close> the chain member,
  pointee, member, pointee leads back to the key of \<^verbatim>\<open>struct a\<close>, whose entry is the
  one descriptor of the structure.
\<close>

theorem resolve_idempotent_sharing_witness:
  "\<exists>a'. resolve 5 pair_records Map.empty (1, 0x10) = Some (Inr ((1, 0x10), a'))
      \<and> complete pair_records Map.empty
      \<and> resolve (Suc 0) pair_records a' (1, 0x10) = Some (Inr ((1, 0x10), a'))
      \<and> a' (1, 0x10) = Some (Resolved (Struct (Some ''a'') 8 [(Some ''b'', 0, Some (1, 0x20))]))
      \<and> follow a' (1, 0x10) [0, 0, 0, 0] = Some (1, 0x10)"
proof -
  from pair_resolves obtain a' where
    r: "resolve 5 pair_records Map.empty (1, 0x10) = Some (Inr ((1, 0x10), a'))" by blast
  have c: "complete pair_records Map.empty"
    by (simp add: complete_def well_formed_def)
  note t = resolve_idempotent_sharing [OF r, of 0 "[0, 0, 0, 0]"]
  from t have again: "resolve (Suc 0) pair_records a' (1, 0x10) = Some (Inr ((1, 0x10), a'))"
    by blast
  from t c obtain rr d where
    m: "map_of pair_records (1, 0x10) = Some rr" and d: "describe rr = Inr d"
    and e: "a' (1, 0x10) = Some (Resolved d)" by blast
  from m have "rr = DebugRecord StructureType (Some ''a'') (1, 0x10) [(AT_byte_size, Const 8)]
        [DebugRecord Member (Some ''b'') (1, 0x18)
           [(AT_member_offset, Const 0), (AT_type, Ref (1, 0x20))] []]"
    by (simp add: pair_records_def)
  with d have "d = Struct (Some ''a'') 8 [(Some ''b'', 0, Some (1, 0x20))]"
    by (simp add: describe_simps)
  with e have e': "a' (1, 0x10) = Some (Resolved (Struct (Some ''a'') 8 [(Some ''b'', 0, Some (1, 0x20))]))"
    by simp
  have f: "follow_records pair_records (1, 0x10) [0, 0, 0, 0] = Some (1, 0x10)"
    by (simp add: pair_records_def describe_simps)
  from t c have "follow a' (1, 0x10) [0, 0, 0, 0] = follow_records pair_records (1, 0x10) [0, 0, 0, 0]"
    by blast
  with f have fo: "follow a' (1, 0x10) [0, 0, 0, 0] = Some (1, 0x10)" by simp
  from r c again e' fo show ?thesis by blast
qed

end
